theory Spec2Isabelle
  imports Main "HOL-Library.Word" "HOL-Library.Sublist"
begin

unbundle bit_operations_syntax

section \<open>Bytes\<close>

text \<open>Go's \<open>byte\<close> is an unsigned 8-bit integer; a \<open>[]byte\<close> is a list of them.\<close>

type_synonym byte = "8 word"

section \<open>The final SGR normalization pass (\<open>normalizeCSISGRAny\<close>)\<close>

text \<open>A CSI final byte lies in \<open>0x40..0x7E\<close>; the parameter check of the pass admits
  \<open>';'\<close> and the decimal digits.\<close>

definition is_final :: "byte \<Rightarrow> bool" where
  "is_final c = (0x40 \<le> c \<and> c \<le> 0x7E)"

definition is_param :: "byte \<Rightarrow> bool" where
  "is_param d = (d = 0x3B \<or> (0x30 \<le> d \<and> d \<le> 0x39))"

text \<open>The inner loop \<open>for j < len(in)\<close>: starting right after \<open>ESC [\<close>, find the first
  final byte. The result is the bytes before it (\<open>in[i+2:j]\<close>), the final byte \<open>in[j]\<close>
  and the bytes after it; \<open>None\<close> when the loop runs off the end of the input.\<close>

fun csi_split :: "byte list \<Rightarrow> (byte list \<times> byte \<times> byte list) option" where
  "csi_split [] = None"
| "csi_split (c # cs) =
     (if is_final c then Some ([], c, cs)
      else (case csi_split cs of
              None \<Rightarrow> None
            | Some (ps, f, rest) \<Rightarrow> Some (c # ps, f, rest)))"

text \<open>What the pass does with the final byte \<open>c\<close> of a complete sequence. \<open>body\<close> is
  \<open>in[i+2:]\<close>, so \<open>isPrivate\<close> reads its first byte; \<open>params\<close> is \<open>in[i+2:j]\<close>.\<close>

definition sgr_final :: "byte list \<Rightarrow> byte list \<Rightarrow> byte \<Rightarrow> byte" where
  "sgr_final body params c =
     (let isPrivate = (body \<noteq> [] \<and> hd body = 0x3F) in
      if isPrivate then c
      else if c = 0x4D then (if list_all is_param params then 0x6D else c)
      else if c = 0x6A then (if list_all is_param params then 0x4A else c)
      else c)"

text \<open>The outer loop, from position \<open>i\<close> on: the argument is \<open>in[i:]\<close>, the result is what
  is appended to \<open>out\<close> from there.\<close>

function normalize_loop :: "byte list \<Rightarrow> byte list" where
  "normalize_loop [] = []"
| "normalize_loop [b] = [b]"
| "normalize_loop (b # n # body) =
     (if b = 0x1B \<and> n = 0x5B then
        (case csi_split body of
           None \<Rightarrow> 0x1B # 0x5B # body
         | Some (params, c, rest) \<Rightarrow>
             0x1B # 0x5B # params @ sgr_final body params c # normalize_loop rest)
      else b # normalize_loop (n # body))"
  by pat_completeness auto
termination
proof -
  have shorter: "length rest < length cs"
    if "csi_split cs = Some (ps, f, rest)" for cs ps f rest
    using that by (induction cs arbitrary: ps) (auto split: if_splits option.splits)
  show ?thesis
    by (relation "measure length") (auto dest: shorter)
qed

definition normalizeCSISGRAny :: "byte list \<Rightarrow> byte list" where
  "normalizeCSISGRAny inp = (if length inp < 3 then inp else normalize_loop inp)"

text \<open>Whether the outer loop, on an input that is \<open>pre\<close> followed by \<open>ESC [\<close> and more,
  arrives with its index \<open>i\<close> at that \<open>ESC\<close>. It follows the loop over \<open>pre\<close>: a step that
  copies one byte moves on by one (an \<open>ESC\<close> that is the last byte of \<open>pre\<close> is such a
  step, since the byte behind it is \<open>ESC\<close> and not \<open>[\<close>); a complete CSI sequence in
  \<open>pre\<close> moves on behind its final byte; and a CSI sequence of \<open>pre\<close> that has no final
  byte in \<open>pre\<close> goes on scanning through the \<open>ESC\<close> that follows and takes the \<open>[\<close>
  behind it as its final byte, so that the loop passes over that \<open>ESC\<close>.\<close>

function loop_reaches :: "byte list \<Rightarrow> bool" where
  "loop_reaches [] = True"
| "loop_reaches [b] = True"
| "loop_reaches (b # n # body) =
     (if b = 0x1B \<and> n = 0x5B then
        (case csi_split body of
           None \<Rightarrow> False
         | Some (params, c, rest) \<Rightarrow> loop_reaches rest)
      else loop_reaches (n # body))"
  by pat_completeness auto
termination
proof -
  have shorter: "length rest < length cs"
    if "csi_split cs = Some (ps, f, rest)" for cs ps f rest
    using that by (induction cs arbitrary: ps) (auto split: if_splits option.splits)
  show ?thesis
    by (relation "measure length") (auto dest: shorter)
qed

section \<open>Session state\<close>

text \<open>\<open>LrzszReceiver\<close>: \<open>rzStdin\<close> and \<open>tempDir\<close> say whether the pipe handle is non-nil
  and the directory name non-empty; times are in milliseconds; \<open>to_rz\<close> records the
  writes issued to the input pipe of the \<open>rz\<close> process, oldest first.\<close>

record LrzszReceiver =
  active :: bool
  tempDir :: bool
  rzStdin :: bool
  buffer :: "byte list"
  startTime :: nat
  lastActivity :: nat
  to_rz :: "byte list list"

text \<open>The fields of \<open>Client\<close> that the telnet filter, the transfer detector and the read
  loop use. \<open>telnet\<close> says whether the connection handle is non-nil. Two fields record
  effects: \<open>to_remote\<close> the writes to the remote socket, \<open>to_browser\<close> the JSON
  messages sent to the browser as (type, message) pairs, oldest first.\<close>

record Client =
  charset :: string
  telnet :: bool
  telnetBinaryTX :: bool
  telnetBinaryRX :: bool
  telnetNAWS :: bool
  telnetTTYPE :: bool
  termCols :: int
  termRows :: int
  suppressZmodem :: bool
  suppressUntil :: nat
  zmodemReceiver :: "LrzszReceiver option"
  to_remote :: "byte list list"
  to_browser :: "(string \<times> string) list"

text \<open>Go's \<open>strings.ToUpper\<close> and \<open>strings.ToLower\<close> on ASCII strings: the letters
  \<open>a..z\<close> and \<open>A..Z\<close> are mapped, every other byte is left as it is.\<close>

definition upper_char :: "char \<Rightarrow> char" where
  "upper_char ch = (let k = (of_char ch :: nat) in
                    if 97 \<le> k \<and> k \<le> 122 then char_of (k - 32) else ch)"

definition lower_char :: "char \<Rightarrow> char" where
  "lower_char ch = (let k = (of_char ch :: nat) in
                    if 65 \<le> k \<and> k \<le> 90 then char_of (k + 32) else ch)"

definition ToUpper :: "string \<Rightarrow> string" where
  "ToUpper s = map upper_char s"

definition ToLower :: "string \<Rightarrow> string" where
  "ToLower s = map lower_char s"

text \<open>Equality of two strings up to the case of the ASCII letters. On strings of ASCII
  bytes this is what Go's \<open>strings.EqualFold\<close> computes; on other strings
  \<open>strings.EqualFold\<close> folds by Unicode and equates more.\<close>

definition ascii_fold_eq :: "string \<Rightarrow> string \<Rightarrow> bool" where
  "ascii_fold_eq s t = (map lower_char s = map lower_char t)"

section \<open>The Telnet negotiation filter (\<open>processTelnetData\<close>)\<close>

definition IAC :: byte where "IAC = 255"
definition DONT :: byte where "DONT = 254"
definition DO :: byte where "DO = 253"
definition WONT :: byte where "WONT = 252"
definition WILL :: byte where "WILL = 251"
definition SB :: byte where "SB = 250"
definition SE :: byte where "SE = 240"
definition TELOPT_TTYPE :: byte where "TELOPT_TTYPE = 24"
definition TELOPT_NAWS :: byte where "TELOPT_NAWS = 31"
definition TELQUAL_IS :: byte where "TELQUAL_IS = 0"
definition TELQUAL_SEND :: byte where "TELQUAL_SEND = 1"
definition BINARY :: byte where "BINARY = 0"

text \<open>\<open>[]byte(s)\<close> for a string.\<close>

definition bytes_of :: "string \<Rightarrow> byte list" where
  "bytes_of s = map (\<lambda>ch. of_nat (of_char ch)) s"

definition buildNAWSSB :: "Client \<Rightarrow> byte list" where
  "buildNAWSSB c =
     (let zero = (termCols c = 0 \<or> termRows c = 0);
          cols = (if zero then 80 else termCols c);
          rows = (if zero then 25 else termRows c);
          widthHi = word_of_int (drop_bit 8 cols AND 0xFF);
          widthLo = word_of_int (cols AND 0xFF);
          heightHi = word_of_int (drop_bit 8 rows AND 0xFF);
          heightLo = word_of_int (rows AND 0xFF)
      in [IAC, SB, TELOPT_NAWS, widthHi, widthLo, heightHi, heightLo, IAC, SE])"

text \<open>The answer to one three-byte command \<open>IAC cmd option\<close>: the bytes appended to
  \<open>response\<close> and the updated negotiation flags.\<close>

definition negotiate :: "byte \<Rightarrow> byte \<Rightarrow> Client \<Rightarrow> byte list \<times> Client" where
  "negotiate cmd option c =
     (if cmd = DO then
        (if option = BINARY then ([IAC, WILL, option], c\<lparr>telnetBinaryTX := True\<rparr>)
         else if option = TELOPT_NAWS then
           ([IAC, WILL, option] @ buildNAWSSB (c\<lparr>telnetNAWS := True\<rparr>), c\<lparr>telnetNAWS := True\<rparr>)
         else if option = TELOPT_TTYPE then ([IAC, WILL, option], c\<lparr>telnetTTYPE := True\<rparr>)
         else ([IAC, WONT, option], c))
      else if cmd = DONT then
        ([IAC, WONT, option],
         (let c1 = (if option = BINARY then c\<lparr>telnetBinaryTX := False\<rparr> else c)
          in if option = TELOPT_NAWS then c1\<lparr>telnetNAWS := False\<rparr> else c1))
      else if cmd = WILL then
        (if option = BINARY then ([IAC, DO, option], c\<lparr>telnetBinaryRX := True\<rparr>)
         else ([IAC, DONT, option], c))
      else if cmd = WONT then
        ([IAC, DONT, option], if option = BINARY then c\<lparr>telnetBinaryRX := False\<rparr> else c)
      else ([], c))"

text \<open>The search \<open>for j < len(data)-1\<close> for the terminator \<open>IAC SE\<close>, on \<open>data[sbStart:]\<close>:
  the subnegotiation bytes before the terminator and the bytes after it.\<close>

fun find_IAC_SE :: "byte list \<Rightarrow> (byte list \<times> byte list) option" where
  "find_IAC_SE (x # y # rest) =
     (if x = IAC \<and> y = SE then Some ([], rest)
      else (case find_IAC_SE (y # rest) of
              None \<Rightarrow> None
            | Some (sb, after) \<Rightarrow> Some (x # sb, after)))"
| "find_IAC_SE _ = None"

text \<open>The reply to a terminated subnegotiation with option \<open>opt\<close> and payload \<open>sb\<close>.\<close>

definition sb_reply :: "Client \<Rightarrow> byte \<Rightarrow> byte list \<Rightarrow> byte list" where
  "sb_reply c opt sb =
     (if opt = TELOPT_TTYPE \<and> length sb \<ge> 1 \<and> hd sb = TELQUAL_SEND then
        (let cs = ToUpper (charset c);
             termType = (if cs = ''PETSCIIU'' \<or> cs = ''PETSCIIL'' then ''PETSCII''
                         else if cs = ''ATASCII'' then ''ATASCII'' else ''ansi'')
         in [IAC, SB, TELOPT_TTYPE, TELQUAL_IS] @ bytes_of termType @ [IAC, SE])
      else [])"

text \<open>The main loop \<open>for i < len(data)\<close>. The first argument is \<open>data[i:]\<close>; \<open>clean\<close> and
  \<open>response\<close> are the two accumulators. The branches come in the order of the source:
  escaped IAC, then a three-byte command whose second byte lies in \<open>SE..DONT\<close>, then
  \<open>SB\<close>, then any other two-byte command, then an IAC that is the last byte.
  In the \<open>SB\<close> branch an unterminated subnegotiation leaves \<open>i = j\<close> with
  \<open>j = max sbStart (len(data) - 1)\<close>, so the loop goes on at the last byte of the
  chunk when there is one at or after \<open>sbStart\<close>.\<close>

function telnet_loop :: "byte list \<Rightarrow> byte list \<Rightarrow> byte list \<Rightarrow> Client
    \<Rightarrow> byte list \<times> byte list \<times> Client" where
  "telnet_loop [] clean response c = (clean, response, c)"
| "telnet_loop (b # rest) clean response c =
     (if b = IAC then
        (case rest of
           [] \<Rightarrow> telnet_loop [] clean response c
         | n # rest2 \<Rightarrow>
             if n = IAC then telnet_loop rest2 (clean @ [IAC]) response c
             else if rest2 \<noteq> [] \<and> SE \<le> n \<and> n \<le> DONT then
               (let (r, c') = negotiate n (hd rest2) c
                in telnet_loop (tl rest2) clean (response @ r) c')
             else if n = SB then
               (case rest2 of
                  [] \<Rightarrow> telnet_loop [] clean response c
                | opt # sbdata \<Rightarrow>
                    (case find_IAC_SE sbdata of
                       Some (sb, after) \<Rightarrow>
                         telnet_loop after clean (response @ sb_reply c opt sb) c
                     | None \<Rightarrow>
                         telnet_loop (if sbdata = [] then [] else [last sbdata])
                           clean response c))
             else telnet_loop rest2 clean response c)
      else telnet_loop rest (clean @ [b]) response c)"
  by pat_completeness auto
termination
proof -
  have shorter: "length after \<le> length xs"
    if "find_IAC_SE xs = Some (sb, after)" for xs sb after
    using that
    by (induction xs arbitrary: sb rule: find_IAC_SE.induct)
       (auto split: if_splits option.splits)
  show ?thesis
    by (relation "measure (\<lambda>(d, cl, r, c). length d)") (auto dest: shorter)
qed

text \<open>\<open>processTelnetData\<close>: the clean stream is returned; a non-empty \<open>response\<close> is written
  to the remote socket when the connection handle is not nil.\<close>

definition processTelnetData :: "Client \<Rightarrow> byte list \<Rightarrow> byte list \<times> Client" where
  "processTelnetData c data =
     (let (clean, response, c') = telnet_loop data [] [] c
      in (clean,
          if length response > 0 \<and> telnet c'
          then c'\<lparr>to_remote := to_remote c' @ [response]\<rparr> else c'))"

section \<open>Searching byte slices\<close>

text \<open>Go's \<open>bytes.Index(s, sep)\<close>: the index of the first occurrence of \<open>sep\<close> in \<open>s\<close>,
  \<open>None\<close> for the result \<open>-1\<close>; and \<open>bytes.Contains\<close>, which is \<open>Index(s, sep) != -1\<close>.\<close>

fun bytes_Index :: "byte list \<Rightarrow> byte list \<Rightarrow> nat option" where
  "bytes_Index [] sep = (if sep = [] then Some 0 else None)"
| "bytes_Index (x # xs) sep =
     (if prefix sep (x # xs) then Some 0
      else (case bytes_Index xs sep of None \<Rightarrow> None | Some k \<Rightarrow> Some (Suc k)))"

definition bytes_Contains :: "byte list \<Rightarrow> byte list \<Rightarrow> bool" where
  "bytes_Contains s sep = (bytes_Index s sep \<noteq> None)"

section \<open>The legacy control translator (\<open>translatePETSCIIToANSI\<close>)\<close>

text \<open>The colour table \<open>colorMap\<close>: PETSCII colour code to SGR foreground parameter.\<close>

definition colorMap :: "byte \<Rightarrow> string option" where
  "colorMap b =
     (if b = 0x05 then Some ''97'' else if b = 0x1C then Some ''31''
      else if b = 0x1E then Some ''32'' else if b = 0x1F then Some ''34''
      else if b = 0x90 then Some ''30'' else if b = 0x81 then Some ''33''
      else if b = 0x95 then Some ''33'' else if b = 0x96 then Some ''91''
      else if b = 0x97 then Some ''90'' else if b = 0x98 then Some ''37''
      else if b = 0x99 then Some ''92'' else if b = 0x9A then Some ''94''
      else if b = 0x9B then Some ''37'' else if b = 0x9C then Some ''35''
      else if b = 0x9E then Some ''93'' else if b = 0x9F then Some ''96''
      else None)"

text \<open>The loop \<open>for i < len(data)\<close> on \<open>data[i:]\<close> with the accumulator \<open>out\<close>. On \<open>0x0D\<close> the
  inner loop skips every directly following \<open>0x0D\<close>, one \<open>'\\r'\<close> is appended, and a
  \<open>'\\n'\<close> unless the next byte is one. The two mode switches set the session's charset.\<close>

function petscii_loop :: "byte list \<Rightarrow> byte list \<Rightarrow> Client \<Rightarrow> byte list \<times> Client" where
  "petscii_loop [] out c = (out, c)"
| "petscii_loop (b # rest) out c =
     (if b = 0x07 then petscii_loop rest (out @ [0x07]) c
      else if b = 0x09 then petscii_loop rest (out @ [0x09]) c
      else if b = 0x0E then petscii_loop rest out (c\<lparr>charset := ''PETSCIIL''\<rparr>)
      else if b = 0x0F then petscii_loop rest out c
      else if b = 0x8E then petscii_loop rest out (c\<lparr>charset := ''PETSCIIU''\<rparr>)
      else if b = 0x11 then petscii_loop rest (out @ [0x1B, 0x5B, 0x42]) c
      else if b = 0x91 then petscii_loop rest (out @ [0x1B, 0x5B, 0x41]) c
      else if b = 0x1D then petscii_loop rest (out @ [0x1B, 0x5B, 0x43]) c
      else if b = 0x9D then petscii_loop rest (out @ [0x1B, 0x5B, 0x44]) c
      else if b = 0x14 then petscii_loop rest (out @ [0x08, 0x20, 0x08]) c
      else if b = 0x13 then petscii_loop rest (out @ [0x1B, 0x5B, 0x48]) c
      else if b = 0x93 then
        petscii_loop rest (out @ [0x1B, 0x5B, 0x32, 0x4A, 0x1B, 0x5B, 0x48]) c
      else if b = 0x12 then petscii_loop rest (out @ [0x1B, 0x5B, 0x37, 0x6D]) c
      else if b = 0x92 then petscii_loop rest (out @ [0x1B, 0x5B, 0x32, 0x37, 0x6D]) c
      else if b = 0x0D then
        (let rest' = dropWhile (\<lambda>x. x = 0x0D) rest;
             out1 = out @ [0x0D];
             out2 = (if rest' \<noteq> [] \<and> hd rest' = 0x0A then out1 else out1 @ [0x0A])
         in petscii_loop rest' out2 c)
      else (case colorMap b of
              Some sgr \<Rightarrow> petscii_loop rest (out @ [0x1B, 0x5B] @ bytes_of sgr @ [0x6D]) c
            | None \<Rightarrow> petscii_loop rest (out @ [b]) c))"
  by pat_completeness auto
termination
  by (relation "measure (\<lambda>(d, out, c). length d)")
     (auto simp: less_Suc_eq_le length_dropWhile_le)

definition translatePETSCIIToANSI :: "Client \<Rightarrow> byte list \<Rightarrow> byte list \<times> Client" where
  "translatePETSCIIToANSI c data = petscii_loop data [] c"

section \<open>The ANSI stream normalizer (\<open>ANSIEnhancedProcessor\<close>)\<close>

record ANSIEnhancedProcessor =
  inSequence :: bool
  sequenceBuffer :: "byte list"
  debugMode :: bool

definition NewANSIEnhancedProcessor :: "bool \<Rightarrow> ANSIEnhancedProcessor" where
  "NewANSIEnhancedProcessor debug =
     \<lparr>inSequence = False, sequenceBuffer = [], debugMode = debug\<rparr>"

text \<open>\<open>isSequenceComplete\<close> on the sequence buffer. A \<open>switch\<close> case that finds nothing
  falls out of the \<open>switch\<close> to the length check at the end.\<close>

fun osc_terminated :: "byte \<Rightarrow> byte list \<Rightarrow> bool" where
  "osc_terminated prev [] = False"
| "osc_terminated prev (x # xs) =
     (if x = 0x07 then True
      else if prev = 0x1B \<and> x = 0x5C then True
      else osc_terminated x xs)"

definition isSequenceComplete :: "byte list \<Rightarrow> bool" where
  "isSequenceComplete buf =
     (if length buf < 2 then False
      else (let k = buf ! 1; too_long = (length buf > 100) in
        if k = 0x5B then (if list_ex is_final (drop 2 buf) then True else too_long)
        else if k = 0x5D then (if osc_terminated k (drop 2 buf) then True else too_long)
        else if k = 0x28 \<or> k = 0x29 \<or> k = 0x2A \<or> k = 0x2B then length buf \<ge> 3
        else if k = 0x37 \<or> k = 0x38 then True
        else if k = 0x63 \<or> k = 0x44 \<or> k = 0x4D \<or> k = 0x45 then True
        else if 0x40 \<le> k \<and> k \<le> 0x7F then True
        else too_long))"

text \<open>\<open>processCompleteSequence\<close> on the sequence buffer (logging left out).\<close>

definition processCompleteSequence :: "byte list \<Rightarrow> byte list" where
  "processCompleteSequence buf =
     (if buf = [0x1B, 0x5B, 0x4A] then [0x1B, 0x5B, 0x30, 0x4A]
      else if buf = [0x1B, 0x5B, 0x4B] then [0x1B, 0x5B, 0x30, 0x4B]
      else if buf = [0x1B, 0x5B, 0x6D] then [0x1B, 0x5B, 0x30, 0x6D]
      else if length buf \<ge> 4 \<and> buf ! 0 = 0x1B \<and> buf ! 1 = 0x5B then
        (if buf = [0x1B, 0x5B, 0x32, 0x4A] \<or> buf = [0x1B, 0x5B, 0x30, 0x3B, 0x32, 0x4A]
         then [0x1B, 0x5B, 0x32, 0x4A, 0x1B, 0x5B, 0x48]
         else if bytes_Contains buf [0x32, 0x4A] then buf @ [0x1B, 0x5B, 0x48]
         else buf)
      else buf)"

text \<open>Starting a sequence from an 8-bit C1 introducer: the buffer becomes \<open>ESC\<close> and the
  7-bit introducer.\<close>

definition start_seq :: "byte list \<Rightarrow> ANSIEnhancedProcessor \<Rightarrow> ANSIEnhancedProcessor" where
  "start_seq intro p = p\<lparr>inSequence := True, sequenceBuffer := intro\<rparr>"

definition finish_seq :: "ANSIEnhancedProcessor \<Rightarrow> ANSIEnhancedProcessor" where
  "finish_seq p = p\<lparr>inSequence := False, sequenceBuffer := []\<rparr>"

text \<open>The byte loop of \<open>ProcessANSIData\<close> on \<open>data[i:]\<close>, with the accumulator \<open>result\<close> and
  the processor's fields.\<close>

fun ansi_loop :: "byte list \<Rightarrow> byte list \<Rightarrow> ANSIEnhancedProcessor
    \<Rightarrow> byte list \<times> ANSIEnhancedProcessor" where
  "ansi_loop [] result p = (result, p)"
| "ansi_loop (b # rest) result p =
     (if b = 0x9B then ansi_loop rest result (start_seq [0x1B, 0x5B] p)
      else if b = 0x9D then ansi_loop rest result (start_seq [0x1B, 0x5D] p)
      else if b = 0x90 then ansi_loop rest result (start_seq [0x1B, 0x50] p)
      else if b = 0x9C then
        (if inSequence p then
           ansi_loop rest
             (result @ processCompleteSequence (sequenceBuffer p @ [0x1B, 0x5C]))
             (finish_seq p)
         else ansi_loop rest (result @ [0x1B, 0x5C]) p)
      else if b = 0x0C then
        ansi_loop rest (result @ [0x1B, 0x5B, 0x32, 0x4A] @ [0x1B, 0x5B, 0x48]) p
      else if b = 0x0E then ansi_loop rest (result @ [b]) p
      else if b = 0x0F then ansi_loop rest (result @ [b]) p
      else if b = 0x1B then ansi_loop rest result (start_seq [b] p)
      else if inSequence p then
        (let buf = sequenceBuffer p @ [b] in
         if isSequenceComplete buf
         then ansi_loop rest (result @ processCompleteSequence buf) (finish_seq p)
         else ansi_loop rest result (p\<lparr>sequenceBuffer := buf\<rparr>))
      else ansi_loop rest (result @ [b]) p)"

text \<open>\<open>ProcessANSIData\<close>: after the loop a non-empty sequence buffer is appended to the
  result, and the buffer and the flag stay as they are for the next call.\<close>

definition ProcessANSIData :: "ANSIEnhancedProcessor \<Rightarrow> byte list
    \<Rightarrow> byte list \<times> ANSIEnhancedProcessor" where
  "ProcessANSIData p data =
     (let (result, p') = ansi_loop data [] p
      in (if length (sequenceBuffer p') > 0 then result @ sequenceBuffer p' else result, p'))"

section \<open>The binary-transfer detector and bridge (\<open>LrzszReceiver\<close>)\<close>

text \<open>What one call meets outside the program: the clock, how the start of the \<open>rz\<close>
  process goes, whether a write to its input pipe succeeds, and the files it has left
  in its directory.\<close>

datatype rz_start =
  RzStarted | TempDirFailed | StdinPipeFailed | StdoutPipeFailed | StderrPipeFailed | StartFailed

record Env =
  now :: nat
  rz_start :: rz_start
  write_ok :: bool
  rz_files :: "string list"

definition NewLrzszReceiver :: LrzszReceiver where
  "NewLrzszReceiver =
     \<lparr>active = False, tempDir = False, rzStdin = False, buffer = [],
      startTime = 0, lastActivity = 0, to_rz = []\<rparr>"

definition headerPatterns :: "byte list list" where
  "headerPatterns =
     [[0x2A, 0x2A, 0x18, 0x42, 0x30, 0x30],
      [0x2A, 0x2A, 0x18, 0x41],
      [0x2A, 0x2A, 0x18, 0x43],
      [0x18, 0x42, 0x30, 0x30],
      [0x18, 0x43, 0x04]]"

text \<open>\<open>findZmodemStartIndex\<close>: the loop over the patterns keeps in \<open>first\<close> the least index
  found so far (\<open>None\<close> for \<open>-1\<close>); the result is \<open>None\<close> for \<open>(0, false)\<close>.\<close>

definition first_step :: "byte list \<Rightarrow> byte list \<Rightarrow> nat option \<Rightarrow> nat option" where
  "first_step data p first =
     (case bytes_Index data p of
        None \<Rightarrow> first
      | Some idx \<Rightarrow>
          (case first of
             None \<Rightarrow> Some idx
           | Some f \<Rightarrow> if idx < f then Some idx else Some f))"

definition findZmodemStartIndex :: "byte list \<Rightarrow> nat option" where
  "findZmodemStartIndex data = fold (first_step data) headerPatterns None"

definition requestTelnetBinary :: "Client \<Rightarrow> Client" where
  "requestTelnetBinary c =
     (if telnet c then c\<lparr>to_remote := to_remote c @ [[IAC, DO, BINARY, IAC, WILL, BINARY]]\<rparr>
      else c)"

text \<open>\<open>startRz\<close>: the first component says whether the returned error is nil. The
  fields keep what was assigned before the step that failed. The four goroutines
  it starts are not part of a call.\<close>

definition startRz :: "rz_start \<Rightarrow> LrzszReceiver \<Rightarrow> Client \<Rightarrow> bool \<times> LrzszReceiver \<times> Client" where
  "startRz r l c =
     (case r of
        TempDirFailed \<Rightarrow> (False, l, c)
      | StdinPipeFailed \<Rightarrow> (False, l\<lparr>tempDir := True\<rparr>, c)
      | StdoutPipeFailed \<Rightarrow> (False, l\<lparr>tempDir := True, rzStdin := True\<rparr>, c)
      | StderrPipeFailed \<Rightarrow> (False, l\<lparr>tempDir := True, rzStdin := True\<rparr>, c)
      | StartFailed \<Rightarrow> (False, l\<lparr>tempDir := True, rzStdin := True\<rparr>, requestTelnetBinary c)
      | RzStarted \<Rightarrow>
          (let c1 = requestTelnetBinary c
           in (True, l\<lparr>tempDir := True, rzStdin := True\<rparr>,
               c1\<lparr>to_browser := to_browser c1 @
                  [(''downloadStart'', ''ZMODEM transfer starting...'')]\<rparr>)))"

text \<open>\<open>completeTransfer\<close>: one \<open>fileDownload\<close> message per received file (its
  base64 payload is left out), then the directory is removed.\<close>

definition completeTransfer :: "Env \<Rightarrow> LrzszReceiver \<Rightarrow> Client \<Rightarrow> LrzszReceiver \<times> Client" where
  "completeTransfer e l c =
     (let l1 = l\<lparr>active := False, buffer := [], rzStdin := False\<rparr>
      in if tempDir l1
         then (l1\<lparr>tempDir := False\<rparr>,
               c\<lparr>to_browser := to_browser c @ map (\<lambda>f. (''fileDownload'', f)) (rz_files e)\<rparr>)
         else (l1, c))"

text \<open>\<open>ProcessData\<close>: the result is \<open>(remaining, consumed)\<close>, with \<open>[]\<close> for a nil
  \<open>remaining\<close>, and the receiver and the client after the call.\<close>

definition ProcessData :: "Env \<Rightarrow> LrzszReceiver \<Rightarrow> Client \<Rightarrow> byte list
    \<Rightarrow> (byte list \<times> bool) \<times> LrzszReceiver \<times> Client" where
  "ProcessData e l c data =
     (if \<not> active l then
        (let l1 = l\<lparr>buffer := buffer l @ data\<rparr> in
         case findZmodemStartIndex (buffer l1) of
           Some startIdx \<Rightarrow>
             (let (ok, l2, c2) = startRz (rz_start e) l1 c in
              if \<not> ok then ((data, False), l2\<lparr>buffer := []\<rparr>, c2)
              else
                (let l3 = l2\<lparr>active := True, startTime := now e, lastActivity := now e\<rparr>;
                     c3 = c2\<lparr>to_browser := to_browser c2 @
                            [(''zmodemStatus'', ''File transfer started (using rz)...'')]\<rparr>;
                     (l4, c4) =
                       (if rzStdin l3 \<and> length (buffer l3) > startIdx then
                          (let (clean, c') = processTelnetData c3 (drop startIdx (buffer l3))
                           in (if length clean > 0 then l3\<lparr>to_rz := to_rz l3 @ [clean]\<rparr> else l3,
                               c'))
                        else (l3, c3))
                 in (([], True), l4\<lparr>buffer := []\<rparr>, c4)))
         | None \<Rightarrow>
             (let l2 = (if length (buffer l1) > 1024
                        then l1\<lparr>buffer := drop 512 (buffer l1)\<rparr> else l1)
              in ((data, False), l2, c)))
      else if active l \<and> rzStdin l then
        (let (clean, c1) = processTelnetData c data;
             l1 = l\<lparr>lastActivity := now e, to_rz := to_rz l @ [clean]\<rparr>
         in if \<not> write_ok e
            then (let (l2, c2) = completeTransfer e l1 c1 in (([], True), l2, c2))
            else (([], True), l1, c1))
      else ((data, False), l, c))"

text \<open>\<open>forwardRzStdoutToRemote\<close> escapes what it relays: every byte is appended, and a
  \<open>255\<close> is appended once more.\<close>

fun escape_IAC :: "byte list \<Rightarrow> byte list" where
  "escape_IAC [] = []"
| "escape_IAC (b # bs) = (if b = 255 then b # 255 # escape_IAC bs else b # escape_IAC bs)"

section \<open>The read loop (\<open>readTelnet\<close>), one chunk\<close>

definition hasZmodemSignature :: "byte list \<Rightarrow> bool" where
  "hasZmodemSignature data =
     list_ex (bytes_Contains data)
       [[0x2A, 0x2A, 0x18, 0x42, 0x30, 0x30], [0x2A, 0x18, 0x43], bytes_of ''rz'' @ [0x0D]]"

definition receiver_active :: "Client \<Rightarrow> bool" where
  "receiver_active c = (case zmodemReceiver c of None \<Rightarrow> False | Some l \<Rightarrow> active l)"

text \<open>The pre-suppression at the head of the loop body.\<close>

definition pre_suppress :: "Env \<Rightarrow> Client \<Rightarrow> byte list \<Rightarrow> Client" where
  "pre_suppress e c rawData =
     (if hasZmodemSignature rawData \<and> \<not> receiver_active c \<and> \<not> suppressZmodem c
      then c\<lparr>suppressZmodem := True, suppressUntil := now e + 5000\<rparr>
      else c)"

text \<open>Feeding the detector and choosing \<open>cleanData\<close> (\<open>[]\<close> for nil).\<close>

definition feed_receiver :: "Env \<Rightarrow> Client \<Rightarrow> byte list \<Rightarrow> byte list \<times> Client" where
  "feed_receiver e c rawData =
     (case zmodemReceiver c of
        Some l \<Rightarrow>
          (let ((remaining, consumed), l', c') = ProcessData e l c rawData;
               c1 = c'\<lparr>zmodemReceiver := Some l'\<rparr>;
               (cleanData, c2) =
                 (if consumed then (if length remaining > 0 then remaining else [], c1)
                  else processTelnetData c1 rawData)
           in (if receiver_active c2 then [] else cleanData, c2))
      | None \<Rightarrow> processTelnetData c rawData)"

text \<open>One pass of the loop body for a chunk of \<open>n > 0\<close> bytes, with one reading of the
  clock. The first component is \<open>Some cleanData\<close> when the guarded block that ends in
  the \<open>data\<close> message to the browser is entered with \<open>cleanData\<close>, and \<open>None\<close> when it
  is skipped; that block holds the only \<open>data\<close> message of the loop.\<close>

definition readTelnet_chunk :: "Env \<Rightarrow> Client \<Rightarrow> byte list \<Rightarrow> byte list option \<times> Client" where
  "readTelnet_chunk e c rawData =
     (let c1 = pre_suppress e c rawData;
          (cleanData, c2) = feed_receiver e c1 rawData;
          c3 = (if suppressZmodem c2 \<and> (now e > suppressUntil c2 \<or> receiver_active c2)
                then c2\<lparr>suppressZmodem := False\<rparr> else c2)
      in (if length cleanData > 0 \<and> \<not> receiver_active c3 \<and> \<not> suppressZmodem c3
          then Some cleanData else None,
          c3))"

text \<open>The loop over the chunks read one after the other, each with what it meets
  outside the program.\<close>

fun readTelnet_chunks :: "(Env \<times> byte list) list \<Rightarrow> Client
    \<Rightarrow> byte list option list \<times> Client" where
  "readTelnet_chunks [] c = ([], c)"
| "readTelnet_chunks ((e, rawData) # later) c =
     (let (shown, c1) = readTelnet_chunk e c rawData;
          (shown_later, c2) = readTelnet_chunks later c1
      in (shown # shown_later, c2))"

text \<open>What has been written to the input pipe of \<open>rz\<close> in this session, and whether the
  session's receiver holds an open pipe.\<close>

definition rz_written :: "Client \<Rightarrow> byte list list" where
  "rz_written c = (case zmodemReceiver c of None \<Rightarrow> [] | Some l \<Rightarrow> to_rz l)"

definition pipe_open :: "Client \<Rightarrow> bool" where
  "pipe_open c = (case zmodemReceiver c of None \<Rightarrow> False | Some l \<Rightarrow> rzStdin l)"

text \<open>The client as \<open>handleWebSocket\<close> creates it, and as \<open>connectTelnet\<close> leaves it when
  the dial to \<open>address\<close> has succeeded.\<close>

definition new_Client :: Client where
  "new_Client =
     \<lparr>charset = ''CP437'', telnet = False, telnetBinaryTX = False, telnetBinaryRX = False,
      telnetNAWS = False, telnetTTYPE = False, termCols = 80, termRows = 25,
      suppressZmodem = False, suppressUntil = 0, zmodemReceiver = None,
      to_remote = [], to_browser = []\<rparr>"

definition connectTelnet_ok :: "string \<Rightarrow> Client \<Rightarrow> Client" where
  "connectTelnet_ok address c =
     c\<lparr>telnet := True, zmodemReceiver := Some NewLrzszReceiver,
       to_browser := to_browser c @ [(''connected'', ''Connected to '' @ address)]\<rparr>"

section \<open>The connect request (\<open>handleWebSocket\<close>, case \<open>connect\<close>)\<close>

record BBSInfo =
  ID :: string
  Name :: string
  Host :: string
  Port :: int
  Protocol :: string
  Description :: string
  Encoding :: string
  Location :: string

text \<open>The fields of an incoming \<open>Message\<close> that the \<open>connect\<close> case reads.\<close>

record Message =
  msg_Type :: string
  msg_Host :: string
  msg_Port :: int
  msg_Protocol :: string
  msg_Username :: string
  msg_Password :: string
  msg_Charset :: string

text \<open>\<open>refreshApprovedBBSList\<close>: the argument is what \<open>GetBBSDirectoryEntries\<close> returns
  (\<open>None\<close> for an error), given with the fields that are copied; the result is the new
  value of \<open>ApprovedBBSList\<close>.\<close>

definition refreshApprovedBBSList :: "BBSInfo list option \<Rightarrow> BBSInfo list" where
  "refreshApprovedBBSList entries =
     (case entries of
        None \<Rightarrow> []
      | Some es \<Rightarrow>
          if length es > 0 then map (\<lambda>e. e\<lparr>Protocol := ToLower (Protocol e)\<rparr>) es else [])"

text \<open>What the \<open>connect\<close> case does next, in order.\<close>

datatype action =
  SendMessage string string
| SetCharsetAndAdjust string
| ConnectTelnet string int
| ConnectSSH string int string string

text \<open>The test of the loop over the list. \<open>strings.EqualFold\<close> belongs to Go's standard
  library; it is the parameter \<open>EqualFold\<close> here and in the \<open>connect\<close> case.\<close>

definition approves :: "(string \<Rightarrow> string \<Rightarrow> bool) \<Rightarrow> Message \<Rightarrow> BBSInfo \<Rightarrow> bool" where
  "approves EqualFold msg bbs =
     (EqualFold (Host bbs) (msg_Host msg) \<and> Port bbs = msg_Port msg \<and>
      EqualFold (Protocol bbs) (msg_Protocol msg))"

text \<open>The \<open>connect\<close> case: the directory as \<open>GetBBSDirectoryEntries\<close> would return it, the
  current \<open>ApprovedBBSList\<close> and the message give the list after the case and the
  actions taken.\<close>

definition handle_connect :: "(string \<Rightarrow> string \<Rightarrow> bool) \<Rightarrow> BBSInfo list option
    \<Rightarrow> BBSInfo list \<Rightarrow> Message \<Rightarrow> BBSInfo list \<times> action list" where
  "handle_connect EqualFold directory ApprovedBBSList msg =
     (let approved = (if length ApprovedBBSList = 0 then refreshApprovedBBSList directory
                      else ApprovedBBSList);
          isApproved = list_ex (approves EqualFold msg) approved
      in if \<not> isApproved
         then (approved, [SendMessage ''error'' ''Connection blocked: Host not in approved list''])
         else (approved,
               (if msg_Charset msg \<noteq> [] then [SetCharsetAndAdjust (msg_Charset msg)] else []) @
               (if msg_Protocol msg = ''telnet''
                  then [ConnectTelnet (msg_Host msg) (msg_Port msg)]
                else if msg_Protocol msg = ''ssh''
                  then [ConnectSSH (msg_Host msg) (msg_Port msg) (msg_Username msg) (msg_Password msg)]
                else [])))"

section \<open>Properties of the final SGR normalization pass\<close>

lemma csi_split_Some:
  "csi_split cs = Some (ps, f, rest) \<Longrightarrow>
     cs = ps @ f # rest \<and> is_final f \<and> list_all (\<lambda>p. \<not> is_final p) ps"
  by (induction cs arbitrary: ps) (auto split: if_splits option.splits)

lemma csi_split_append:
  "list_all (\<lambda>p. \<not> is_final p) ps \<Longrightarrow> is_final f \<Longrightarrow>
     csi_split (ps @ f # rest) = Some (ps, f, rest)"
  by (induction ps) auto

lemma normalize_loop_not_ESC:
  "b \<noteq> 0x1B \<Longrightarrow> normalize_loop (b # ys) = b # normalize_loop ys"
  by (cases ys) auto

lemma normalize_loop_head: "\<exists>zs. normalize_loop (x # xs) = x # zs"
  by (cases xs) (auto split: option.splits)

lemma normalize_loop_short: "length xs < 3 \<Longrightarrow> normalize_loop xs = xs"
proof (cases xs)
  case (Cons a as)
  assume "length xs < 3"
  with Cons show ?thesis
    by (cases as) (auto split: option.splits)
qed simp

lemma normalizeCSISGRAny_loop: "normalizeCSISGRAny xs = normalize_loop xs"
  by (simp add: normalizeCSISGRAny_def normalize_loop_short)

lemma is_final_sgr_final: "is_final c \<Longrightarrow> is_final (sgr_final body ps c)"
  by (simp add: sgr_final_def is_final_def)

lemma private_head:
  "is_final f \<Longrightarrow> is_final g \<Longrightarrow>
     (ps @ f # r \<noteq> [] \<and> hd (ps @ f # r) = 0x3F) = (ps @ g # r' \<noteq> [] \<and> hd (ps @ g # r') = 0x3F)"
  by (cases ps) (auto simp: is_final_def)

lemma sgr_final_again:
  assumes "is_final f"
  shows "sgr_final (ps @ sgr_final (ps @ f # r) ps f # r') ps (sgr_final (ps @ f # r) ps f)
       = sgr_final (ps @ f # r) ps f"
proof -
  let ?g = "sgr_final (ps @ f # r) ps f"
  have g: "is_final ?g" using assms by (rule is_final_sgr_final)
  have "(ps @ f # r \<noteq> [] \<and> hd (ps @ f # r) = 0x3F)
      = (ps @ ?g # r' \<noteq> [] \<and> hd (ps @ ?g # r') = 0x3F)"
    using assms g by (rule private_head)
  then show ?thesis
    unfolding sgr_final_def Let_def by (simp del: append_is_Nil_conv)
qed

lemma normalize_loop_idem: "normalize_loop (normalize_loop xs) = normalize_loop xs"
proof (induction xs rule: normalize_loop.induct)
  case 1
  show ?case by simp
next
  case (2 b)
  show ?case by simp
next
  case (3 b n body)
  show ?case
  proof (cases "b = 0x1B \<and> n = 0x5B")
    case csi: True
    show ?thesis
    proof (cases "csi_split body")
      case None
      with csi show ?thesis by simp
    next
      case (Some t)
      obtain ps f rest where t: "t = (ps, f, rest)" by (cases t) auto
      from Some t have sp: "body = ps @ f # rest" "is_final f"
        "list_all (\<lambda>p. \<not> is_final p) ps"
        using csi_split_Some by blast+
      let ?g = "sgr_final body ps f"
      have g: "is_final ?g" using sp(2) by (rule is_final_sgr_final)
      have out: "normalize_loop (b # n # body) = 0x1B # 0x5B # ps @ ?g # normalize_loop rest"
        using csi Some t by simp
      have again: "csi_split (ps @ ?g # normalize_loop rest) = Some (ps, ?g, normalize_loop rest)"
        using sp(3) g by (rule csi_split_append)
      have fin: "sgr_final (ps @ ?g # normalize_loop rest) ps ?g = ?g"
        unfolding sp(1) using sp(2) by (rule sgr_final_again)
      have ih: "normalize_loop (normalize_loop rest) = normalize_loop rest"
        using "3.IH"(1) [OF csi Some] t by simp
      show ?thesis
        unfolding out using again fin ih by simp
    qed
  next
    case plain: False
    obtain zs where zs: "normalize_loop (n # body) = n # zs"
      using normalize_loop_head by blast
    have ih: "normalize_loop (normalize_loop (n # body)) = normalize_loop (n # body)"
      using "3.IH"(2) [OF plain] .
    have out: "normalize_loop (b # n # body) = b # normalize_loop (n # body)"
      using plain by auto
    have "normalize_loop (b # n # zs) = b # normalize_loop (n # zs)"
      using plain by auto
    then show ?thesis
      unfolding out using zs ih by simp
  qed
qed

text \<open>Claim C9: the final normalization pass is idempotent: applied to its own output it
  changes nothing, for every byte sequence.\<close>

theorem normalizeCSISGRAny_idempotent:
  "normalizeCSISGRAny (normalizeCSISGRAny s) = normalizeCSISGRAny s"
  by (simp add: normalizeCSISGRAny_loop normalize_loop_idem)

lemma csi_split_more:
  "csi_split cs = Some (ps, f, rest) \<Longrightarrow> csi_split (cs @ xs) = Some (ps, f, rest @ xs)"
  by (induction cs arbitrary: ps) (auto split: if_splits option.splits)

lemma sgr_final_more:
  "csi_split body = Some (ps, f, rest) \<Longrightarrow> sgr_final (body @ xs) ps f = sgr_final body ps f"
  by (cases body) (auto simp: sgr_final_def)








text \<open>The condition is the exact one: when the loop does not arrive at the \<open>ESC\<close>, the
  bytes \<open>ESC [\<close> end the unfinished sequence before them and the parameters and the \<open>M\<close>
  are copied.\<close>

lemma csi_split_None: "csi_split cs = None \<Longrightarrow> list_all (\<lambda>p. \<not> is_final p) cs"
  by (induction cs) (auto split: if_splits option.splits)

lemma final_open_bracket: "is_final 0x5B" "\<not> is_final 0x1B"
  by (simp_all add: is_final_def)

lemma normalize_loop_swallowed:
  "\<not> loop_reaches pre \<Longrightarrow>
     normalize_loop (pre @ 0x1B # 0x5B # xs)
       = normalize_loop (pre @ [0x1B, 0x5B]) @ normalize_loop xs"
proof (induction pre rule: loop_reaches.induct)
  case 1
  then show ?case by simp
next
  case (2 b)
  then show ?case by simp
next
  case (3 b n body)
  show ?case
  proof (cases "b = 0x1B \<and> n = 0x5B")
    case csi: True
    show ?thesis
    proof (cases "csi_split body")
      case None
      then have "list_all (\<lambda>p. \<not> is_final p) (body @ [0x1B])"
        using csi_split_None [OF None] by (simp add: final_open_bracket)
      then have sp: "csi_split ((body @ [0x1B]) @ 0x5B # ys) = Some (body @ [0x1B], 0x5B, ys)"
        for ys
        using final_open_bracket(1) by (rule csi_split_append)
      have fin: "sgr_final bd (body @ [0x1B]) 0x5B = 0x5B" for bd
        by (simp add: sgr_final_def)
      show ?thesis
        using csi sp [of xs] sp [of "[]"] by (simp add: fin)
    next
      case (Some t)
      obtain ps f rest where t: "t = (ps, f, rest)" by (cases t) auto
      have sp: "csi_split body = Some (ps, f, rest)" using Some t by simp
      have nr: "\<not> loop_reaches rest" using "3.prems" csi sp by simp
      have ih: "normalize_loop (rest @ 0x1B # 0x5B # xs)
              = normalize_loop (rest @ [0x1B, 0x5B]) @ normalize_loop xs"
        using "3.IH"(1) [OF csi sp refl refl nr] .
      show ?thesis
        using csi ih
        by (simp add: csi_split_more [OF sp] sgr_final_more [OF sp])
    qed
  next
    case plain: False
    with "3.prems" have nr: "\<not> loop_reaches (n # body)" by auto
    have ih: "normalize_loop ((n # body) @ 0x1B # 0x5B # xs)
            = normalize_loop ((n # body) @ [0x1B, 0x5B]) @ normalize_loop xs"
      using "3.IH"(2) [OF plain nr] .
    have "normalize_loop (b # n # body @ 0x1B # 0x5B # xs)
        = b # normalize_loop (n # body @ 0x1B # 0x5B # xs)"
      using plain by auto
    moreover have "normalize_loop (b # n # body @ [0x1B, 0x5B])
        = b # normalize_loop (n # body @ [0x1B, 0x5B])"
      using plain by auto
    ultimately show ?thesis using ih by simp
  qed
qed

lemma param_not_ESC: "is_param d \<Longrightarrow> d \<noteq> 0x1B"
  by (auto simp: is_param_def)

lemma normalize_loop_params:
  "list_all is_param ps \<Longrightarrow> c \<noteq> 0x1B \<Longrightarrow>
     normalize_loop (ps @ c # post) = ps @ c # normalize_loop post"
  by (induction ps) (auto simp: normalize_loop_not_ESC dest: param_not_ESC)

lemma swallowed_sequence_kept:
  assumes "\<not> loop_reaches pre" and "list_all is_param ps"
  shows "normalizeCSISGRAny (pre @ [0x1B, 0x5B] @ ps @ [0x4D] @ post)
       = normalizeCSISGRAny (pre @ [0x1B, 0x5B]) @ ps @ [0x4D] @ normalizeCSISGRAny post"
proof -
  have a: "normalize_loop (ps @ 0x4D # post) = ps @ 0x4D # normalize_loop post"
    by (rule normalize_loop_params [OF assms(2)]) simp
  have b: "normalize_loop (pre @ 0x1B # 0x5B # ps @ 0x4D # post)
         = normalize_loop (pre @ [0x1B, 0x5B]) @ normalize_loop (ps @ 0x4D # post)"
    by (rule normalize_loop_swallowed [OF assms(1)])
  show ?thesis
    using a b by (simp add: normalizeCSISGRAny_loop)
qed

section \<open>Properties of the telnet filter\<close>

lemmas telnet_consts = IAC_def DONT_def DO_def WONT_def WILL_def SB_def SE_def
  TELOPT_TTYPE_def TELOPT_NAWS_def TELQUAL_IS_def TELQUAL_SEND_def BINARY_def

lemma telnet_loop_escaped:
  "telnet_loop (escape_IAC xs @ ys) clean response c = telnet_loop ys (clean @ xs) response c"
  by (induction xs arbitrary: clean) (auto simp: IAC_def)

text \<open>Claim C5: escaping a byte sequence as \<open>forwardRzStdoutToRemote\<close> does (every \<open>0xFF\<close>
  doubled) and passing the result through the telnet filter gives the sequence back,
  each \<open>0xFF\<close> once.\<close>

theorem IAC_escaping_round_trip:
  "fst (processTelnetData c (escape_IAC xs)) = xs"
  using telnet_loop_escaped [of xs "[]" "[]" "[]" c]
  by (simp add: processTelnetData_def)

text \<open>Claim C7 says that an unterminated subnegotiation makes the filter drop the rest of
  the chunk from \<open>IAC SB\<close> on. The filter does not: \<open>SB\<close> (250) lies in the range
  \<open>SE..DONT\<close> of the three-byte command branch, which comes first, so \<open>IAC SB opt\<close> is
  skipped as a command and the bytes behind it reach the clean stream. For the chunk
  \<open>IAC SB TTYPE SEND 'A' 'B'\<close> the clean stream is \<open>SEND 'A' 'B'\<close>.\<close>

theorem unterminated_subnegotiation_leaks:
  "fst (processTelnetData c [255, 250, 24, 1, 65, 66]) = [1, 65, 66]"
  by (simp add: processTelnetData_def telnet_consts negotiate_def split_def)

lemma find_IAC_SE_length:
  "find_IAC_SE xs = Some (sb, after) \<Longrightarrow> length after \<le> length xs"
  by (induction xs arbitrary: sb rule: find_IAC_SE.induct)
     (auto split: if_splits option.splits)

lemma telnet_loop_clean:
  "fst (telnet_loop d clean response c) = clean @ fst (telnet_loop d [] [] c0)"
proof (induction "length d" arbitrary: d clean response c rule: less_induct)
  case less
  show ?case
  proof (cases d)
    case Nil
    then show ?thesis by simp
  next
    case (Cons b rest)
    define F where "F ys = fst (telnet_loop ys [] [] c0)" for ys
    have ih: "fst (telnet_loop ys cl r c') = cl @ F ys"
      if "length ys \<le> length rest" for ys cl r c'
      unfolding F_def using less [of ys cl r c'] that Cons by simp
    have t: "length (tl ys) \<le> length ys" for ys :: "byte list" by simp
    have l: "fst (telnet_loop (b # rest) clean response c)
           = clean @ fst (telnet_loop (b # rest) [] [] c0)"
    proof (cases rest)
      case Nil
      then show ?thesis by simp
    next
      case r: (Cons n rest2)
      show ?thesis
      proof (cases rest2)
        case Nil
        with r show ?thesis by (simp add: ih split_def Let_def)
      next
        case r2: (Cons opt sbdata)
        have a: "length after \<le> length rest"
          if "find_IAC_SE sbdata = Some (sb, after)" for sb after
          using find_IAC_SE_length [OF that] r r2 by simp
        have i1: "fst (telnet_loop sbdata cl rr c') = cl @ F sbdata" for cl rr c'
          by (rule ih) (simp add: r r2)
        have i2: "fst (telnet_loop rest2 cl rr c') = cl @ F rest2" for cl rr c'
          by (rule ih) (simp add: r)
        have i3: "fst (telnet_loop [x] cl rr c') = cl @ F [x]" for cl rr c' x
          by (rule ih) (simp add: r)
        have i4: "fst (telnet_loop [] cl rr c') = cl @ F []" for cl rr c'
          by (rule ih) simp
        have i5: "fst (telnet_loop after cl rr c') = cl @ F after"
          if "find_IAC_SE sbdata = Some (sb, after)" for cl rr c' sb after
          by (rule ih) (rule a [OF that])
        have i6: "fst (telnet_loop rest cl rr c') = cl @ F rest" for cl rr c'
          by (rule ih) simp
        show ?thesis
          using i2 [unfolded r2] i6 [unfolded r r2]
          by (simp add: i1 i3 i4 i5 r r2 split_def Let_def split: option.splits
                   del: telnet_loop.simps(1))
      qed
    qed
    show ?thesis unfolding Cons by (rule l)
  qed
qed

lemma processTelnetData_clean:
  "fst (processTelnetData c d) = fst (processTelnetData c0 d)"
  using telnet_loop_clean [of d "[]" "[]" c c0]
  by (simp add: processTelnetData_def split_def Let_def)

section \<open>Properties of the legacy control translator\<close>

lemma petscii_loop_acc:
  "fst (petscii_loop xs out c) = out @ fst (petscii_loop xs [] c')"
proof (induction "length xs" arbitrary: xs out c c' rule: less_induct)
  case less
  show ?case
  proof (cases xs)
    case Nil
    then show ?thesis by simp
  next
    case (Cons b rest)
    define F where "F ys = fst (petscii_loop ys [] c')" for ys
    have ih: "fst (petscii_loop ys out' c'') = out' @ F ys"
      if "length ys \<le> length rest" for ys out' c''
      unfolding F_def using less [of ys out' c'' c'] that Cons by simp
    have d: "length (dropWhile (\<lambda>x. x = 0x0D) rest) \<le> length rest"
      by (rule length_dropWhile_le)
    have l: "fst (petscii_loop (b # rest) out c) = out @ fst (petscii_loop (b # rest) [] c')"
      by (simp add: Let_def ih d split: option.splits)
    show ?thesis unfolding Cons by (rule l)
  qed
qed

lemma dropWhile_CR_keeps_last:
  assumes "ys \<noteq> []" and "last ys \<noteq> (0x0D :: byte)"
  shows "dropWhile (\<lambda>x. x = 0x0D) ys \<noteq> [] \<and>
         last (dropWhile (\<lambda>x. x = 0x0D) ys) = last ys \<and>
         dropWhile (\<lambda>x. x = 0x0D) (ys @ xs) = dropWhile (\<lambda>x. x = 0x0D) ys @ xs"
proof -
  have m: "last ys \<in> set ys" using assms(1) by simp
  have ne: "dropWhile (\<lambda>x. x = 0x0D) ys \<noteq> []"
    using m assms(2) by auto
  have "ys = takeWhile (\<lambda>x. x = 0x0D) ys @ dropWhile (\<lambda>x. x = 0x0D) ys" by simp
  then have "last ys = last (takeWhile (\<lambda>x. x = 0x0D) ys @ dropWhile (\<lambda>x. x = 0x0D) ys)"
    by simp
  also have "\<dots> = last (dropWhile (\<lambda>x. x = 0x0D) ys)"
    using ne by (rule last_appendR)
  finally have la: "last (dropWhile (\<lambda>x. x = 0x0D) ys) = last ys" by simp
  have "dropWhile (\<lambda>x. x = 0x0D) (ys @ xs) = dropWhile (\<lambda>x. x = 0x0D) ys @ xs"
    using m assms(2) by (rule dropWhile_append1)
  with ne la show ?thesis by simp
qed

lemma petscii_loop_split:
  "pre = [] \<or> last pre \<noteq> 0x0D \<Longrightarrow>
     fst (petscii_loop (pre @ xs) out c) = fst (petscii_loop pre out c) @ fst (petscii_loop xs [] c')"
proof (induction "length pre" arbitrary: pre out c rule: less_induct)
  case less
  show ?case
  proof (cases pre)
    case Nil
    then show ?thesis using petscii_loop_acc [of xs out c c'] by simp
  next
    case (Cons b rest)
    define F where "F = fst (petscii_loop xs [] c')"
    have ih: "fst (petscii_loop (ys @ xs) out' c'') = fst (petscii_loop ys out' c'') @ F"
      if "length ys \<le> length rest" "ys = [] \<or> last ys \<noteq> 0x0D" for ys out' c''
      unfolding F_def using less.hyps [of ys out' c''] that Cons by simp
    have l: "fst (petscii_loop (b # rest @ xs) out c) = fst (petscii_loop (b # rest) out c) @ F"
    proof (cases "b = 0x0D")
      case False
      have r: "rest = [] \<or> last rest \<noteq> 0x0D"
        using less.prems Cons by (auto split: if_splits)
      show ?thesis
        using False by (simp add: ih [OF order_refl r] split: option.splits)
    next
      case True
      have r: "rest \<noteq> []" "last rest \<noteq> 0x0D"
        using less.prems Cons True by (auto split: if_splits)
      let ?D = "dropWhile (\<lambda>x. x = 0x0D) rest"
      have D: "?D \<noteq> []" "last ?D = last rest"
        "dropWhile (\<lambda>x. x = 0x0D) (rest @ xs) = ?D @ xs"
        using dropWhile_CR_keeps_last [OF r, of xs] by simp_all
      have len: "length ?D \<le> length rest" by (rule length_dropWhile_le)
      have cond: "?D = [] \<or> last ?D \<noteq> 0x0D" using D(2) r(2) by simp
      have hd: "hd (?D @ xs) = hd ?D" using D(1) by simp
      show ?thesis
        using True D(1) by (simp add: Let_def D(3) hd ih [OF len cond])
    qed
    show ?thesis unfolding Cons F_def [symmetric] using l by simp
  qed
qed

lemma petscii_loop_CR_run:
  assumes "post = [] \<or> hd post \<noteq> 0x0D"
  shows "fst (petscii_loop (replicate (Suc n) 0x0D @ post) [] c)
       = [0x0D, 0x0A] @
         fst (petscii_loop (if post \<noteq> [] \<and> hd post = 0x0A then tl post else post) [] c)"
proof -
  have dp: "dropWhile (\<lambda>x. x = 0x0D) post = post"
    using assms by (cases post) auto
  have "dropWhile (\<lambda>x. x = 0x0D) (replicate n 0x0D @ post) = dropWhile (\<lambda>x. x = 0x0D) post"
    by (rule dropWhile_append2) simp
  with dp have d: "dropWhile (\<lambda>x. x = 0x0D) (replicate n 0x0D @ post) = post"
    by simp
  show ?thesis
  proof (cases "post \<noteq> [] \<and> hd post = 0x0A")
    case True
    then obtain post' where p: "post = 0x0A # post'" by (cases post) auto
    show ?thesis
      using petscii_loop_acc [of post' "[0x0D, 0x0A]" c c]
      by (simp add: d [unfolded p] Let_def p colorMap_def)
  next
    case False
    then show ?thesis
      using petscii_loop_acc [of post "[0x0D, 0x0A]" c c]
      by (auto simp: d Let_def)
  qed
qed

text \<open>Claim C4: a run of \<open>n \<ge> 1\<close> bytes \<open>0x0D\<close> (a run: no \<open>0x0D\<close> right before or right
  after it) is translated to the one line break \<open>CR LF\<close>, whatever \<open>n\<close> is; around it the
  translation is that of the bytes before and of the bytes after, where a \<open>0x0A\<close> that
  follows the run directly is the \<open>LF\<close> of that line break. So a lone \<open>0x0D\<close> at the end
  of the input gives output ending in \<open>CR LF\<close>, and three \<open>0x0D\<close> give one line break.\<close>

theorem CR_run_is_one_line_break:
  assumes "1 \<le> n"
    and "pre = [] \<or> last pre \<noteq> 0x0D"
    and "post = [] \<or> hd post \<noteq> 0x0D"
  shows "fst (translatePETSCIIToANSI c (pre @ replicate n 0x0D @ post))
       = fst (translatePETSCIIToANSI c pre) @ [0x0D, 0x0A] @
         fst (translatePETSCIIToANSI c
                (if post \<noteq> [] \<and> hd post = 0x0A then tl post else post))"
proof -
  obtain m where n: "n = Suc m" using assms(1) by (cases n) auto
  have "fst (petscii_loop (pre @ replicate n 0x0D @ post) [] c)
      = fst (petscii_loop pre [] c) @ fst (petscii_loop (replicate n 0x0D @ post) [] c)"
    using assms(2) by (rule petscii_loop_split)
  then show ?thesis
    unfolding translatePETSCIIToANSI_def n
    using petscii_loop_CR_run [OF assms(3), of m c] by simp
qed

theorem CR_run_is_one_line_break_witness:
  "(1::nat) \<le> 1 \<and> (1::nat) \<le> 3 \<and>
   fst (translatePETSCIIToANSI (new_Client\<lparr>charset := ''PETSCIIU''\<rparr>) [0x0D]) = [0x0D, 0x0A] \<and>
   fst (translatePETSCIIToANSI (new_Client\<lparr>charset := ''PETSCIIU''\<rparr>) [0x0D, 0x0D, 0x0D])
     = [0x0D, 0x0A] \<and>
   fst (translatePETSCIIToANSI (new_Client\<lparr>charset := ''PETSCIIU''\<rparr>)
          [0x41, 0x0D, 0x0D, 0x0D, 0x0A, 0x42])
     = [0x41, 0x0D, 0x0A, 0x42]"
proof -
  let ?c = "new_Client\<lparr>charset := ''PETSCIIU''\<rparr>"
  have e: "fst (translatePETSCIIToANSI ?c []) = []"
    and a: "fst (translatePETSCIIToANSI ?c [0x41]) = [0x41]"
    and b: "fst (translatePETSCIIToANSI ?c [0x42]) = [0x42]"
    by (simp_all add: translatePETSCIIToANSI_def colorMap_def)
  show ?thesis
    using CR_run_is_one_line_break [of 1 "[]" "[]" ?c]
      CR_run_is_one_line_break [of 3 "[]" "[]" ?c]
      CR_run_is_one_line_break [of 3 "[0x41]" "[0x0A, 0x42]" ?c]
    by (simp add: e a b numeral_3_eq_3)
qed

section \<open>Properties of the ANSI stream normalizer\<close>

text \<open>Claim C1 says that feeding a stream in chunks gives the same output as feeding it
  whole. \<open>ProcessANSIData\<close> appends an unfinished sequence to its result and keeps it in
  the buffer as well: with the chunks \<open>ESC\<close> and \<open>[31m\<close> the first call returns \<open>ESC\<close>,
  the second \<open>ESC [31m\<close>, so the \<open>ESC\<close> is sent twice, while the whole stream in one
  call gives \<open>ESC [31m\<close> once.\<close>

theorem split_escape_is_duplicated:
  "fst (ProcessANSIData (NewANSIEnhancedProcessor d) [0x1B]) = [0x1B] \<and>
   fst (ProcessANSIData (snd (ProcessANSIData (NewANSIEnhancedProcessor d) [0x1B]))
          [0x5B, 0x33, 0x31, 0x6D]) = [0x1B, 0x5B, 0x33, 0x31, 0x6D] \<and>
   fst (ProcessANSIData (NewANSIEnhancedProcessor d) [0x1B, 0x5B, 0x33, 0x31, 0x6D])
     = [0x1B, 0x5B, 0x33, 0x31, 0x6D]"
  by (simp add: ProcessANSIData_def NewANSIEnhancedProcessor_def start_seq_def finish_seq_def
      isSequenceComplete_def processCompleteSequence_def is_final_def bytes_Contains_def)

section \<open>Properties of the transfer detector\<close>

lemma bytes_Index_set: "bytes_Index s sep = Some k \<Longrightarrow> set sep \<subseteq> set s"
proof (induction s arbitrary: k)
  case Nil
  then show ?case by (simp split: if_splits)
next
  case (Cons x xs)
  show ?case
  proof (cases "prefix sep (x # xs)")
    case True
    then show ?thesis by (rule set_mono_prefix)
  next
    case False
    with Cons.prems obtain j where "bytes_Index xs sep = Some j"
      by (auto split: option.splits)
    then have "set sep \<subseteq> set xs" by (rule Cons.IH)
    then show ?thesis by auto
  qed
qed

text \<open>Every header pattern holds the byte \<open>0x18\<close>, so data without it starts nothing.\<close>

lemma no_CAN_no_start: "0x18 \<notin> set data \<Longrightarrow> findZmodemStartIndex data = None"
proof -
  assume a: "0x18 \<notin> set data"
  have "bytes_Index data p = None" if "p \<in> set headerPatterns" for p
  proof (cases "bytes_Index data p")
    case (Some k)
    then have "set p \<subseteq> set data" by (rule bytes_Index_set)
    moreover have "0x18 \<in> set p" using that by (auto simp: headerPatterns_def)
    ultimately show ?thesis using a by auto
  qed simp
  then show ?thesis
    by (simp add: findZmodemStartIndex_def headerPatterns_def first_step_def)
qed

text \<open>The lookback buffer after a chunk in which no header is found.\<close>

lemma lookback_after_miss:
  assumes "\<not> active l" and "findZmodemStartIndex (buffer l @ d) = None"
  shows "buffer (fst (snd (ProcessData e l c d)))
       = (if length (buffer l @ d) > 1024 then drop 512 (buffer l @ d) else buffer l @ d)"
  using assms by (simp add: ProcessData_def Let_def)

text \<open>Claim C6 says that the lookback buffer never exceeds a fixed cap after a chunk of
  any size. When the buffer has grown beyond 1024 bytes the detector drops its first
  512 bytes and keeps all the rest: a fresh receiver that is given 2000 zero bytes
  holds 1488 of them afterwards.\<close>

theorem lookback_buffer_exceeds_cap:
  "length (buffer (fst (snd (ProcessData e NewLrzszReceiver c (replicate 2000 0))))) = 1488"
proof -
  have "findZmodemStartIndex (buffer NewLrzszReceiver @ replicate 2000 0) = None"
    by (rule no_CAN_no_start) (simp add: NewLrzszReceiver_def)
  then show ?thesis
    by (simp add: lookback_after_miss NewLrzszReceiver_def)
qed

lemma bytes_Index_None: "bytes_Index s sep = None \<longleftrightarrow> \<not> sublist sep s"
  by (induction s) (auto simp: sublist_Cons_right split: option.splits)

lemma first_step_None:
  "first_step data p first = None \<longleftrightarrow> first = None \<and> bytes_Index data p = None"
  by (simp add: first_step_def split: option.splits)

lemma fold_first_step_None:
  "fold (first_step data) ps first = None
     \<longleftrightarrow> first = None \<and> list_all (\<lambda>p. bytes_Index data p = None) ps"
  by (induction ps arbitrary: first) (auto simp: first_step_None)

lemma findZmodemStartIndex_None:
  "findZmodemStartIndex data = None \<longleftrightarrow> list_all (\<lambda>p. \<not> sublist p data) headerPatterns"
  by (simp add: findZmodemStartIndex_def fold_first_step_None bytes_Index_None)

text \<open>Claim C10: while no transfer is active, if none of the header patterns occurs in the
  lookback buffer extended by the chunk, \<open>ProcessData\<close> returns the chunk as it is with
  \<open>consumed = false\<close>, and leaves the client alone.\<close>

theorem monitoring_passes_chunk_through:
  assumes "\<not> active l"
    and "\<forall>p \<in> set headerPatterns. \<not> sublist p (buffer l @ data)"
  shows "fst (ProcessData e l c data) = (data, False) \<and> snd (snd (ProcessData e l c data)) = c"
proof -
  have "findZmodemStartIndex (buffer l @ data) = None"
    using assms(2) by (simp add: findZmodemStartIndex_None list_all_iff)
  then show ?thesis
    using assms(1) by (simp add: ProcessData_def Let_def)
qed

text \<open>The typed command \<open>rz\<close> followed by \<open>CR\<close> is no header pattern.\<close>

theorem monitoring_passes_chunk_through_witness:
  "\<not> active NewLrzszReceiver \<and>
   list_all (\<lambda>p. \<not> sublist p (buffer NewLrzszReceiver @ [0x72, 0x7A, 0x0D])) headerPatterns \<and>
   fst (ProcessData \<lparr>now = 0, rz_start = RzStarted, write_ok = True, rz_files = []\<rparr> NewLrzszReceiver (connectTelnet_ok ''bbs.example.com:23'' new_Client) [0x72, 0x7A, 0x0D])
     = ([0x72, 0x7A, 0x0D], False)"
proof -
  have h1: "\<not> active NewLrzszReceiver" by (simp add: NewLrzszReceiver_def)
  have h2: "\<forall>p \<in> set headerPatterns.
              \<not> sublist p (buffer NewLrzszReceiver @ [0x72, 0x7A, 0x0D])"
    by (simp add: headerPatterns_def NewLrzszReceiver_def sublist_Cons_right)
  show ?thesis
    using h1 h2 monitoring_passes_chunk_through [OF h1 h2] by (simp add: list_all_iff)
qed

section \<open>Properties of the read loop\<close>

lemma startRz_ok: "fst (startRz r l c) \<longleftrightarrow> r = RzStarted"
  by (cases r) (simp_all add: startRz_def Let_def)

lemma startRz_receiver:
  "r = RzStarted \<Longrightarrow> fst (snd (startRz r l c)) = l\<lparr>tempDir := True, rzStdin := True\<rparr>"
  by (simp add: startRz_def Let_def)

text \<open>When \<open>ProcessData\<close> reports \<open>consumed = true\<close>, and what it returns then.\<close>

lemma ProcessData_consumed_iff:
  "snd (fst (ProcessData e l c d)) \<longleftrightarrow>
     (if active l then rzStdin l
      else findZmodemStartIndex (buffer l @ d) \<noteq> None \<and> rz_start e = RzStarted)"
  by (auto simp: ProcessData_def Let_def split_def startRz_ok split: option.splits)

lemma ProcessData_consumed_nil:
  "snd (fst (ProcessData e l c d)) \<Longrightarrow> fst (fst (ProcessData e l c d)) = []"
  by (auto simp: ProcessData_def Let_def split_def startRz_ok split: option.splits if_splits)

lemma ProcessData_consumed_pipe:
  assumes "snd (fst (ProcessData e l c d))" and "active (fst (snd (ProcessData e l c d)))"
  shows "rzStdin (fst (snd (ProcessData e l c d)))"
proof (cases "active l")
  case True
  with assms show ?thesis
    by (auto simp: ProcessData_def Let_def split_def completeTransfer_def split: if_splits)
next
  case False
  with assms(1) obtain k where k: "findZmodemStartIndex (buffer l @ d) = Some k"
    and s: "rz_start e = RzStarted"
    by (auto simp: ProcessData_consumed_iff)
  show ?thesis
    using False k s
    by (simp add: ProcessData_def Let_def split_def startRz_ok startRz_receiver)
qed

lemma ProcessData_active_step:
  assumes "active l" and "rzStdin l" and "write_ok e"
  shows "fst (ProcessData e l c d) = ([], True)"
    and "active (fst (snd (ProcessData e l c d)))"
    and "rzStdin (fst (snd (ProcessData e l c d)))"
    and "to_rz (fst (snd (ProcessData e l c d))) = to_rz l @ [fst (processTelnetData c d)]"
  using assms by (simp_all add: ProcessData_def Let_def split_def)

lemma zmodemReceiver_pre_suppress [simp]:
  "zmodemReceiver (pre_suppress e c d) = zmodemReceiver c"
  by (simp add: pre_suppress_def)

lemma readTelnet_chunk_consumed:
  assumes "zmodemReceiver c = Some l" and "snd (fst (ProcessData e l c' d))"
  shows "fst (readTelnet_chunk e c d) = None"
    and "zmodemReceiver (snd (readTelnet_chunk e c d))
           = Some (fst (snd (ProcessData e l (pre_suppress e c d) d)))"
proof -
  let ?c1 = "pre_suppress e c d"
  have con: "snd (fst (ProcessData e l ?c1 d))"
    using assms(2) by (simp add: ProcessData_consumed_iff)
  then have nil: "fst (fst (ProcessData e l ?c1 d)) = []"
    by (rule ProcessData_consumed_nil)
  have z: "zmodemReceiver ?c1 = Some l" using assms(1) by simp
  have feed: "fst (feed_receiver e ?c1 d) = []"
    "zmodemReceiver (snd (feed_receiver e ?c1 d)) = Some (fst (snd (ProcessData e l ?c1 d)))"
    using con nil z by (simp_all add: feed_receiver_def Let_def split_def)
  show "fst (readTelnet_chunk e c d) = None"
    using feed(1) by (simp add: readTelnet_chunk_def Let_def split_def)
  show "zmodemReceiver (snd (readTelnet_chunk e c d))
           = Some (fst (snd (ProcessData e l ?c1 d)))"
    using feed(2) by (simp add: readTelnet_chunk_def Let_def split_def)
qed

lemma readTelnet_chunk_active:
  assumes "receiver_active c" and "pipe_open c" and "write_ok e"
  shows "fst (readTelnet_chunk e c d) = None \<and>
         receiver_active (snd (readTelnet_chunk e c d)) \<and>
         pipe_open (snd (readTelnet_chunk e c d)) \<and>
         rz_written (snd (readTelnet_chunk e c d)) = rz_written c @ [fst (processTelnetData c0 d)]"
proof -
  from assms(1,2) obtain l where l: "zmodemReceiver c = Some l" "active l" "rzStdin l"
    by (auto simp: receiver_active_def pipe_open_def split: option.splits)
  let ?c1 = "pre_suppress e c d"
  note step = ProcessData_active_step [OF l(2) l(3) assms(3), of ?c1 d]
  have con: "snd (fst (ProcessData e l ?c1 d))" using step(1) by simp
  note rc = readTelnet_chunk_consumed [OF l(1) con]
  have w: "to_rz (fst (snd (ProcessData e l ?c1 d))) = to_rz l @ [fst (processTelnetData c0 d)]"
    using step(4) processTelnetData_clean [of ?c1 d c0] by simp
  show ?thesis
    using rc step(2,3) w l(1)
    by (simp add: receiver_active_def pipe_open_def rz_written_def)
qed

lemma readTelnet_chunks_active:
  assumes "receiver_active c" and "pipe_open c" and "list_all (\<lambda>(e, d). write_ok e) later"
  shows "list_all (\<lambda>s. s = None) (fst (readTelnet_chunks later c)) \<and>
         receiver_active (snd (readTelnet_chunks later c)) \<and>
         pipe_open (snd (readTelnet_chunks later c)) \<and>
         rz_written (snd (readTelnet_chunks later c))
           = rz_written c @ map (\<lambda>(e, d). fst (processTelnetData c0 d)) later"
  using assms
proof (induction later arbitrary: c)
  case Nil
  then show ?case by simp
next
  case (Cons ed later)
  obtain e d where ed: "ed = (e, d)" by (cases ed)
  from Cons.prems(3) ed have w: "write_ok e" and ws: "list_all (\<lambda>(e, d). write_ok e) later"
    by simp_all
  note one = readTelnet_chunk_active [OF Cons.prems(1) Cons.prems(2) w, of d c0]
  let ?c1 = "snd (readTelnet_chunk e c d)"
  from one have a: "receiver_active ?c1" and p: "pipe_open ?c1" by simp_all
  note rest = Cons.IH [OF a p ws]
  show ?case
    using one rest by (simp add: ed split_def Let_def)
qed

text \<open>Claim C3: when the session's detector reports \<open>consumed = true\<close> for a chunk, the read
  loop does not enter the display block for that chunk; and as long as the transfer
  goes on (the receiver is active after the chunk and no write to the pipe fails), it
  does not enter it for any later chunk either, the receiver stays active, and every
  later chunk is written, cleaned by the telnet filter, to the input pipe of \<open>rz\<close>.\<close>

theorem transfer_owns_the_stream:
  assumes "zmodemReceiver c = Some l"
    and "snd (fst (ProcessData e l c rawData))"
    and "receiver_active (snd (readTelnet_chunk e c rawData))"
    and "list_all (\<lambda>(e', d). write_ok e') later"
  shows "fst (readTelnet_chunk e c rawData) = None \<and>
         list_all (\<lambda>s. s = None)
           (fst (readTelnet_chunks later (snd (readTelnet_chunk e c rawData)))) \<and>
         receiver_active (snd (readTelnet_chunks later (snd (readTelnet_chunk e c rawData)))) \<and>
         rz_written (snd (readTelnet_chunks later (snd (readTelnet_chunk e c rawData))))
           = rz_written (snd (readTelnet_chunk e c rawData))
             @ map (\<lambda>(e', d). fst (processTelnetData c d)) later"
proof -
  let ?c1 = "snd (readTelnet_chunk e c rawData)"
  let ?l1 = "fst (snd (ProcessData e l (pre_suppress e c rawData) rawData))"
  note rc = readTelnet_chunk_consumed [OF assms(1) assms(2)]
  have con: "snd (fst (ProcessData e l (pre_suppress e c rawData) rawData))"
    using assms(2) by (simp add: ProcessData_consumed_iff)
  have act: "active ?l1"
    using assms(3) rc(2) by (simp add: receiver_active_def)
  have "rzStdin ?l1" using con act by (rule ProcessData_consumed_pipe)
  then have p: "pipe_open ?c1" using rc(2) by (simp add: pipe_open_def)
  show ?thesis
    using rc(1) readTelnet_chunks_active [OF assms(3) p assms(4), of c] by simp
qed

text \<open>A session that receives the header \<open>**\<close> \<open>CAN\<close> \<open>B00\<close> and then the chunk
  \<open>'A' 0xFF 0xFF 'B'\<close>.\<close>

theorem transfer_owns_the_stream_witness:
  "zmodemReceiver (connectTelnet_ok ''bbs.example.com:23'' new_Client) = Some NewLrzszReceiver \<and>
   snd (fst (ProcessData \<lparr>now = 0, rz_start = RzStarted, write_ok = True, rz_files = []\<rparr> NewLrzszReceiver (connectTelnet_ok ''bbs.example.com:23'' new_Client) [0x2A, 0x2A, 0x18, 0x42, 0x30, 0x30])) \<and>
   receiver_active (snd (readTelnet_chunk \<lparr>now = 0, rz_start = RzStarted, write_ok = True, rz_files = []\<rparr> (connectTelnet_ok ''bbs.example.com:23'' new_Client) [0x2A, 0x2A, 0x18, 0x42, 0x30, 0x30])) \<and>
   list_all (\<lambda>(e', d). write_ok e') [(\<lparr>now = 40, rz_start = RzStarted, write_ok = True, rz_files = []\<rparr>, [0x41, 0xFF, 0xFF, 0x42])] \<and>
   fst (readTelnet_chunk \<lparr>now = 0, rz_start = RzStarted, write_ok = True, rz_files = []\<rparr> (connectTelnet_ok ''bbs.example.com:23'' new_Client) [0x2A, 0x2A, 0x18, 0x42, 0x30, 0x30]) = None \<and>
   fst (readTelnet_chunks [(\<lparr>now = 40, rz_start = RzStarted, write_ok = True, rz_files = []\<rparr>, [0x41, 0xFF, 0xFF, 0x42])]
          (snd (readTelnet_chunk \<lparr>now = 0, rz_start = RzStarted, write_ok = True, rz_files = []\<rparr> (connectTelnet_ok ''bbs.example.com:23'' new_Client) [0x2A, 0x2A, 0x18, 0x42, 0x30, 0x30]))) = [None] \<and>
   rz_written (snd (readTelnet_chunks [(\<lparr>now = 40, rz_start = RzStarted, write_ok = True, rz_files = []\<rparr>, [0x41, 0xFF, 0xFF, 0x42])]
          (snd (readTelnet_chunk \<lparr>now = 0, rz_start = RzStarted, write_ok = True, rz_files = []\<rparr> (connectTelnet_ok ''bbs.example.com:23'' new_Client) [0x2A, 0x2A, 0x18, 0x42, 0x30, 0x30]))))
     = [[0x2A, 0x2A, 0x18, 0x42, 0x30, 0x30], [0x41, 0xFF, 0x42]]"
proof -
  let ?e = "\<lparr>now = 0, rz_start = RzStarted, write_ok = True, rz_files = []\<rparr>"
  let ?c = "(connectTelnet_ok ''bbs.example.com:23'' new_Client)"
  let ?hdr = "[0x2A, 0x2A, 0x18, 0x42, 0x30, 0x30] :: byte list"
  let ?later = "[(\<lparr>now = 40, rz_start = RzStarted, write_ok = True, rz_files = []\<rparr>, [0x41, 0xFF, 0xFF, 0x42 :: byte])]"
  have h1: "zmodemReceiver ?c = Some NewLrzszReceiver"
    by (simp add: connectTelnet_ok_def)
  have h2: "snd (fst (ProcessData ?e NewLrzszReceiver ?c ?hdr))"
    by code_simp
  have h3: "receiver_active (snd (readTelnet_chunk ?e ?c ?hdr))"
    by code_simp
  have h4: "list_all (\<lambda>(e', d). write_ok e') ?later" by simp
  have w: "rz_written (snd (readTelnet_chunk ?e ?c ?hdr)) = [?hdr]"
    by code_simp
  have cl: "fst (processTelnetData ?c [0x41, 0xFF, 0xFF, 0x42]) = [0x41, 0xFF, 0x42]"
    by code_simp
  have one: "list_all (\<lambda>s. s = None) xs \<Longrightarrow> length xs = 1 \<Longrightarrow> xs = [None]"
    for xs :: "byte list option list"
    by (cases xs) auto
  have len: "length (fst (readTelnet_chunks ?later (snd (readTelnet_chunk ?e ?c ?hdr)))) = 1"
    by (simp add: split_def Let_def)
  show ?thesis
    using h1 h2 h3 h4 transfer_owns_the_stream [OF h1 h2 h3 h4] one [OF _ len]
    by (simp add: w cl)
qed

section \<open>Properties of the connect request\<close>

text \<open>Claim C8 says that a request whose protocol is not exactly that of an approved entry
  is answered with an error notification. The check compares the protocol with
  \<open>strings.EqualFold\<close>, under which \<open>telnet\<close> and \<open>TELNET\<close> are equal as the host name is to
  itself: the request for protocol \<open>TELNET\<close> passes it against the entry \<open>telnet\<close>, so no
  error is sent, and as the dial branches compare with \<open>telnet\<close> and \<open>ssh\<close> exactly,
  nothing is dialled either.\<close>

theorem case_variant_protocol_not_rejected:
  assumes "EqualFold ''bbs.example.com'' ''bbs.example.com''"
    and "EqualFold ''telnet'' ''TELNET''"
  shows "handle_connect EqualFold None
     [\<lparr>ID = ''1'', Name = ''Example'', Host = ''bbs.example.com'', Port = 23,
       Protocol = ''telnet'', Description = [], Encoding = [], Location = []\<rparr>]
     \<lparr>msg_Type = ''connect'', msg_Host = ''bbs.example.com'', msg_Port = 23,
       msg_Protocol = ''TELNET'', msg_Username = [], msg_Password = [], msg_Charset = []\<rparr>
   = ([\<lparr>ID = ''1'', Name = ''Example'', Host = ''bbs.example.com'', Port = 23,
        Protocol = ''telnet'', Description = [], Encoding = [], Location = []\<rparr>], [])"
  using assms by (simp add: handle_connect_def approves_def)

text \<open>The same request with the comparison of ASCII strings up to case.\<close>

theorem case_variant_protocol_not_rejected_witness:
  "ascii_fold_eq ''bbs.example.com'' ''bbs.example.com'' \<and>
   ascii_fold_eq ''telnet'' ''TELNET'' \<and>
   handle_connect ascii_fold_eq None
     [\<lparr>ID = ''1'', Name = ''Example'', Host = ''bbs.example.com'', Port = 23,
       Protocol = ''telnet'', Description = [], Encoding = [], Location = []\<rparr>]
     \<lparr>msg_Type = ''connect'', msg_Host = ''bbs.example.com'', msg_Port = 23,
       msg_Protocol = ''TELNET'', msg_Username = [], msg_Password = [], msg_Charset = []\<rparr>
   = ([\<lparr>ID = ''1'', Name = ''Example'', Host = ''bbs.example.com'', Port = 23,
        Protocol = ''telnet'', Description = [], Encoding = [], Location = []\<rparr>], [])"
proof -
  have h1: "ascii_fold_eq ''bbs.example.com'' ''bbs.example.com''"
    by (simp add: ascii_fold_eq_def)
  have h2: "ascii_fold_eq ''telnet'' ''TELNET''"
    by code_simp
  show ?thesis
    using h1 h2 case_variant_protocol_not_rejected [of ascii_fold_eq, OF h1 h2] by simp
qed

end
